theory Spec2Isabelle
  imports Main "HOL-Library.Word" "HOL-Library.Sublist"
begin

section \<open>Strings, whitespace and the tokenizing split\<close>

text \<open>
  A JavaScript string is a sequence of UTF-16 code units. Token equality in the program
  is \<^verbatim>\<open>===\<close> on strings, which is equality of these sequences.
\<close>

type_synonym jsstring = "16 word list"

text \<open>
  The code units matched by \<^verbatim>\<open>\s\<close> in a regular expression without the unicode flag, which
  are also the ones removed by \<^verbatim>\<open>String.prototype.trim\<close>: the ECMAScript WhiteSpace and
  LineTerminator productions (TAB, LF, VT, FF, CR, SP, NBSP, U+1680, U+2000..U+200A,
  U+2028, U+2029, U+202F, U+205F, U+3000, U+FEFF).
\<close>

definition is_whitespace :: "16 word \<Rightarrow> bool" where
  "is_whitespace c \<longleftrightarrow>
     c = 0x09 \<or> c = 0x0A \<or> c = 0x0B \<or> c = 0x0C \<or> c = 0x0D \<or> c = 0x20 \<or> c = 0xA0 \<or>
     c = 0x1680 \<or> (0x2000 \<le> c \<and> c \<le> 0x200A) \<or> c = 0x2028 \<or> c = 0x2029 \<or>
     c = 0x202F \<or> c = 0x205F \<or> c = 0x3000 \<or> c = 0xFEFF"

text \<open>
  \<^verbatim>\<open>s.trim()\<close>: the string without its leading and trailing whitespace.
\<close>

definition trim :: "jsstring \<Rightarrow> jsstring" where
  "trim s = rev (dropWhile is_whitespace (rev (dropWhile is_whitespace s)))"

text \<open>
  \<^verbatim>\<open>s.split(/(\s+)/)\<close>, the tokenizer of \<^verbatim>\<open>handleCompare\<close>. The separator is the leftmost
  maximal run of whitespace; the text before it is one element, the run itself (the
  capture group) the next, and the split goes on behind the run. When no separator is
  left the remaining text is the last element, also when it is empty: the empty string
  splits to one empty string, and a string that ends with whitespace gets an empty last
  element.
\<close>

function split_ws :: "jsstring \<Rightarrow> jsstring list" where
  "split_ws s =
     (case dropWhile (\<lambda>c. \<not> is_whitespace c) s of
        [] \<Rightarrow> [s]
      | c # cs \<Rightarrow>
          takeWhile (\<lambda>c. \<not> is_whitespace c) s
            # takeWhile is_whitespace (c # cs)
            # split_ws (dropWhile is_whitespace (c # cs)))"
  by pat_completeness auto
termination
proof (relation "measure length")
  show "wf (measure length)" by simp
next
  fix s :: jsstring and c cs
  assume d: "dropWhile (\<lambda>c. \<not> is_whitespace c) s = c # cs"
  have "length (dropWhile is_whitespace (c # cs)) \<le> length (c # cs)"
    by (rule length_dropWhile_le)
  moreover have "is_whitespace c"
    using hd_dropWhile [of "\<lambda>c. \<not> is_whitespace c" s] d by simp
  then have "length (dropWhile is_whitespace (c # cs)) \<le> length cs"
    by (simp add: length_dropWhile_le)
  moreover have "length (c # cs) \<le> length s"
    using length_dropWhile_le [of "\<lambda>c. \<not> is_whitespace c" s] d by simp
  ultimately show "(dropWhile is_whitespace (c # cs), s) \<in> measure length"
    by simp
qed

section \<open>Segments and the aligner\<close>

datatype SegType = added | removed | unchanged

record DiffSegment =
  text' :: jsstring
  type' :: SegType

text \<open>
  Reading an array element: \<^verbatim>\<open>xs[n]\<close> is \<^verbatim>\<open>undefined\<close> outside the array, here \<open>None\<close>.
\<close>

definition at :: "'a list \<Rightarrow> nat \<Rightarrow> 'a option" where
  "at xs n = (if n < length xs then Some (xs ! n) else None)"

text \<open>
  The two lookahead loops of \<^verbatim>\<open>computeDiff\<close> have one shape,
  \<^verbatim>\<open>for (let k = c + 1; k < xs.length && k < c + 5; k++)\<close>, leaving at the first \<open>k\<close>
  whose element is defined and equal to the target. \<open>lookahead xs target c k\<close> is the
  loop from counter \<open>k\<close> on; it returns the index and the candidate found there, or
  \<open>None\<close> when the loop ends with \<^verbatim>\<open>foundMatch\<close> still false.
\<close>

function lookahead :: "jsstring list \<Rightarrow> jsstring \<Rightarrow> nat \<Rightarrow> nat \<Rightarrow> (nat \<times> jsstring) option" where
  "lookahead xs target c k =
     (if k < length xs \<and> k < c + 5 then
        (case at xs k of
           Some candidate \<Rightarrow>
             if candidate = target then Some (k, candidate)
             else lookahead xs target c (k + 1)
         | None \<Rightarrow> lookahead xs target c (k + 1))
      else None)"
  by pat_completeness auto
termination
  by (relation "measure (\<lambda>(xs, target, c, k). c + 5 - k)") auto

text \<open>
  The inner loops \<^verbatim>\<open>for (let l = a; l < b; l++)\<close> that push every defined \<^verbatim>\<open>xs[l]\<close> with
  one segment type.
\<close>

definition pushRange :: "jsstring list \<Rightarrow> SegType \<Rightarrow> nat \<Rightarrow> nat \<Rightarrow> DiffSegment list" where
  "pushRange xs ty a b =
     concat (map (\<lambda>l. case at xs l of
                         Some t \<Rightarrow> [\<lparr>text' = t, type' = ty\<rparr>]
                       | None \<Rightarrow> []) [a..<b])"

text \<open>
  One iteration of the \<^verbatim>\<open>while\<close> loop of \<^verbatim>\<open>computeDiff\<close>, on the cursors \<open>i\<close>, \<open>j\<close> and the
  array \<open>result\<close>; \<^verbatim>\<open>result.push(x)\<close> appends \<open>x\<close>.
\<close>

definition step ::
  "jsstring list \<Rightarrow> jsstring list \<Rightarrow> nat \<times> nat \<times> DiffSegment list \<Rightarrow> nat \<times> nat \<times> DiffSegment list" where
  "step left right st =
     (case st of (i, j, result) \<Rightarrow>
        if i \<ge> length left then
          (case at right j of
             Some t \<Rightarrow> (i, j + 1, result @ [\<lparr>text' = t, type' = added\<rparr>])
           | None \<Rightarrow> (i, j + 1, result))
        else if j \<ge> length right then
          (case at left i of
             Some t \<Rightarrow> (i + 1, j, result @ [\<lparr>text' = t, type' = removed\<rparr>])
           | None \<Rightarrow> (i + 1, j, result))
        else if at left i = at right j then
          (case at left i of
             Some t \<Rightarrow> (i + 1, j + 1, result @ [\<lparr>text' = t, type' = unchanged\<rparr>])
           | None \<Rightarrow> (i + 1, j + 1, result))
        else
          (case (at left i, at right j) of
             (Some currentLeft, Some currentRight) \<Rightarrow>
               (case lookahead right currentLeft j (j + 1) of
                  Some (k, rightCandidate) \<Rightarrow>
                    (i + 1, k + 1,
                     result @ pushRange right added j k
                            @ [\<lparr>text' = currentLeft, type' = unchanged\<rparr>])
                | None \<Rightarrow>
                    (case lookahead left currentRight i (i + 1) of
                       Some (k, leftCandidate) \<Rightarrow>
                         (k + 1, j + 1,
                          result @ pushRange left removed i k
                                 @ [\<lparr>text' = leftCandidate, type' = unchanged\<rparr>])
                     | None \<Rightarrow>
                         (i + 1, j + 1,
                          result @ [\<lparr>text' = currentLeft, type' = removed\<rparr>,
                                    \<lparr>text' = currentRight, type' = added\<rparr>])))
           | _ \<Rightarrow> (i + 1, j + 1, result)))"

text \<open>
  The \<^verbatim>\<open>while (i < left.length || j < right.length)\<close> loop, returning \<open>result\<close> when it
  is left. It is a total function: the termination proof shows that every iteration
  brings the two cursors closer to the ends of their arrays.
\<close>

function computeDiff_loop ::
  "jsstring list \<Rightarrow> jsstring list \<Rightarrow> nat \<times> nat \<times> DiffSegment list \<Rightarrow> DiffSegment list" where
  "computeDiff_loop left right (i, j, result) =
     (if i < length left \<or> j < length right then
        computeDiff_loop left right (step left right (i, j, result))
      else result)"
  by pat_completeness auto
termination
proof (relation "measure (\<lambda>(left, right, i, j, result). (length left - i) + (length right - j))")
  show "wf (measure (\<lambda>(left, right, i, j, result). (length left - i) + (length right - j)))"
    by simp
next
  fix left right :: "jsstring list" and i j :: nat and result :: "DiffSegment list"
  assume cond: "i < length left \<or> j < length right"
  have found: "k0 \<le> k \<and> k < length xs"
    if "lookahead xs target c k0 = Some (k, candidate)" for xs target c k0 k candidate
    using that
  proof (induction xs target c k0 rule: lookahead.induct)
    case (1 xs target c k0)
    have inr: "k0 < length xs \<and> k0 < c + 5"
      using "1.prems" by (subst (asm) lookahead.simps) (simp split: if_splits)
    then have here: "at xs k0 = Some (xs ! k0)"
      by (simp add: at_def)
    show ?case
    proof (cases "xs ! k0 = target")
      case True
      then have "lookahead xs target c k0 = Some (k0, xs ! k0)"
        using inr here by (subst lookahead.simps) simp
      with "1.prems" inr show ?thesis by simp
    next
      case False
      then have "lookahead xs target c k0 = lookahead xs target c (k0 + 1)"
        using inr here by (subst lookahead.simps) simp
      with "1.prems" have "k0 + 1 \<le> k \<and> k < length xs"
        using "1.IH"(2) [OF inr here False] by simp
      then show ?thesis by simp
    qed
  qed
  obtain i' j' result' where st: "step left right (i, j, result) = (i', j', result')"
    by (cases "step left right (i, j, result)") auto
  have "(length left - i') + (length right - j') < (length left - i) + (length right - j)"
  proof (cases "lookahead right (left ! i) j (j + 1)")
    case None
    show ?thesis
    proof (cases "lookahead left (right ! j) i (i + 1)")
      case nl: None
      show ?thesis
        using st None nl cond
        by (auto simp: step_def at_def split: if_splits)
    next
      case (Some p)
      obtain k c where p: "p = (k, c)" by (cases p) auto
      from found [OF Some [unfolded p]] show ?thesis
        using st None Some p cond
        by (auto simp: step_def at_def split: if_splits)
    qed
  next
    case (Some p)
    obtain k c where p: "p = (k, c)" by (cases p) auto
    from found [OF Some [unfolded p]] show ?thesis
      using st Some p cond
      by (auto simp: step_def at_def split: if_splits)
  qed
  then show "((left, right, step left right (i, j, result)), (left, right, i, j, result))
          \<in> measure (\<lambda>(left, right, i, j, result). (length left - i) + (length right - j))"
    unfolding st by simp
qed

definition computeDiff :: "jsstring list \<Rightarrow> jsstring list \<Rightarrow> DiffSegment list" where
  "computeDiff left right = computeDiff_loop left right (0, 0, [])"

subsection \<open>The loop invariant\<close>

text \<open>
  The tokens read so far are the texts of the segments pushed so far: \<open>left\<close> up to \<open>i\<close>
  is what the segments other than added carry, \<open>right\<close> up to \<open>j\<close> what the segments
  other than removed carry, and the number of segments lies between each cursor and
  their sum.
\<close>

definition aligned :: "jsstring list \<Rightarrow> jsstring list \<Rightarrow> nat \<times> nat \<times> DiffSegment list \<Rightarrow> bool" where
  "aligned left right st =
     (case st of (i, j, result) \<Rightarrow>
        i \<le> length left \<and> j \<le> length right \<and>
        map text' (filter (\<lambda>s. type' s = unchanged \<or> type' s = removed) result) = take i left \<and>
        map text' (filter (\<lambda>s. type' s = unchanged \<or> type' s = added) result) = take j right \<and>
        i \<le> length result \<and> j \<le> length result \<and> length result \<le> i + j)"

section \<open>The compare handler\<close>

text \<open>
  The part of the component state that \<^verbatim>\<open>handleCompare\<close> reads and sets. A string is
  falsy exactly when it is empty, so \<^verbatim>\<open>!leftText.trim()\<close> says that the trimmed text is
  empty.
\<close>

record page_state =
  leftText :: jsstring
  rightText :: jsstring
  diffResults :: "DiffSegment list"
  showResults :: bool

definition handleCompare :: "page_state \<Rightarrow> page_state" where
  "handleCompare s =
     (if trim (leftText s) = [] \<and> trim (rightText s) = [] then
        s\<lparr>diffResults := [], showResults := False\<rparr>
      else
        let leftWords = split_ws (leftText s);
            rightWords = split_ws (rightText s);
            diff = computeDiff leftWords rightWords
        in s\<lparr>diffResults := diff, showResults := True\<rparr>)"

section \<open>Facts about array reads, the lookahead and the pushed ranges\<close>

declare lookahead.simps [simp del]

declare computeDiff_loop.simps [simp del]

declare split_ws.simps [simp del]

lemma at_Some_iff: "at xs n = Some x \<longleftrightarrow> n < length xs \<and> xs ! n = x"
  by (auto simp: at_def)

lemma at_None_iff: "at xs n = None \<longleftrightarrow> length xs \<le> n"
  by (auto simp: at_def)

lemma at_in_range: "n < length xs \<Longrightarrow> at xs n = Some (xs ! n)"
  by (simp add: at_def)

lemma lookahead_Some_iff:
  "lookahead xs target c k0 = Some (k, candidate) \<longleftrightarrow>
     candidate = target \<and> k0 \<le> k \<and> k < length xs \<and> k < c + 5 \<and> xs ! k = target \<and>
     (\<forall>m. k0 \<le> m \<and> m < k \<longrightarrow> xs ! m \<noteq> target)"
proof (induction xs target c k0 rule: lookahead.induct)
  case (1 xs target c k0)
  show ?case
  proof (cases "k0 < length xs \<and> k0 < c + 5")
    case False
    then show ?thesis
      by (subst lookahead.simps) auto
  next
    case inr: True
    show ?thesis
    proof (cases "xs ! k0 = target")
      case True
      with inr show ?thesis
        by (subst lookahead.simps) (auto simp: at_in_range intro: le_antisym)
    next
      case False
      have nxt: "lookahead xs target c k0 = lookahead xs target c (k0 + 1)"
        using inr False by (subst lookahead.simps) (simp add: at_in_range)
      have ih: "lookahead xs target c (k0 + 1) = Some (k, candidate) \<longleftrightarrow>
        candidate = target \<and> k0 + 1 \<le> k \<and> k < length xs \<and> k < c + 5 \<and> xs ! k = target \<and>
        (\<forall>m. k0 + 1 \<le> m \<and> m < k \<longrightarrow> xs ! m \<noteq> target)"
        using "1.IH" inr False by (simp add: at_in_range)
      have "(\<forall>m. k0 + 1 \<le> m \<and> m < k \<longrightarrow> xs ! m \<noteq> target) \<longleftrightarrow>
            (\<forall>m. k0 \<le> m \<and> m < k \<longrightarrow> xs ! m \<noteq> target)"
        using False by (metis Suc_eq_plus1 Suc_leI le_neq_implies_less Suc_leD)
      moreover have "xs ! k = target \<Longrightarrow> k0 \<le> k \<Longrightarrow> k0 + 1 \<le> k"
        using False by (cases "k = k0") auto
      ultimately show ?thesis
        unfolding nxt ih by auto
    qed
  qed
qed

lemma lookahead_None_iff:
  "lookahead xs target c k0 = None \<longleftrightarrow>
     (\<forall>m. k0 \<le> m \<and> m < length xs \<and> m < c + 5 \<longrightarrow> xs ! m \<noteq> target)"
proof (induction xs target c k0 rule: lookahead.induct)
  case (1 xs target c k0)
  show ?case
  proof (cases "k0 < length xs \<and> k0 < c + 5")
    case False
    then show ?thesis
      by (subst lookahead.simps) auto
  next
    case inr: True
    show ?thesis
    proof (cases "xs ! k0 = target")
      case True
      with inr show ?thesis
        by (subst lookahead.simps) (auto simp: at_in_range)
    next
      case False
      have nxt: "lookahead xs target c k0 = lookahead xs target c (k0 + 1)"
        using inr False by (subst lookahead.simps) (simp add: at_in_range)
      have ih: "lookahead xs target c (k0 + 1) = None \<longleftrightarrow>
        (\<forall>m. k0 + 1 \<le> m \<and> m < length xs \<and> m < c + 5 \<longrightarrow> xs ! m \<noteq> target)"
        using "1.IH" inr False by (simp add: at_in_range)
      have "(\<forall>m. k0 + 1 \<le> m \<and> m < length xs \<and> m < c + 5 \<longrightarrow> xs ! m \<noteq> target) \<longleftrightarrow>
            (\<forall>m. k0 \<le> m \<and> m < length xs \<and> m < c + 5 \<longrightarrow> xs ! m \<noteq> target)"
        using False by (metis Suc_eq_plus1 Suc_leI le_neq_implies_less Suc_leD)
      then show ?thesis
        unfolding nxt ih by simp
    qed
  qed
qed

lemma window_conv:
  "target \<in> set (take 4 (drop (c + 1) xs)) \<longleftrightarrow>
     (\<exists>m. c + 1 \<le> m \<and> m < length xs \<and> m < c + 5 \<and> xs ! m = target)"
proof
  assume "target \<in> set (take 4 (drop (c + 1) xs))"
  then obtain n where n: "n < length (take 4 (drop (c + 1) xs))"
      "take 4 (drop (c + 1) xs) ! n = target"
    by (auto simp: in_set_conv_nth)
  then have "c + 1 + n < length xs" "n < 4" "xs ! (c + 1 + n) = target"
    by auto
  then show "\<exists>m. c + 1 \<le> m \<and> m < length xs \<and> m < c + 5 \<and> xs ! m = target"
    by (intro exI [of _ "c + 1 + n"]) auto
next
  assume "\<exists>m. c + 1 \<le> m \<and> m < length xs \<and> m < c + 5 \<and> xs ! m = target"
  then obtain m where m: "c + 1 \<le> m" "m < length xs" "m < c + 5" "xs ! m = target"
    by blast
  define n where "n = m - (c + 1)"
  have "n < length (take 4 (drop (c + 1) xs))" "take 4 (drop (c + 1) xs) ! n = target"
    using m by (auto simp: n_def)
  then show "target \<in> set (take 4 (drop (c + 1) xs))"
    by (metis nth_mem)
qed

lemma pushRange_in_range:
  "a \<le> b \<Longrightarrow> b \<le> length xs \<Longrightarrow>
   pushRange xs ty a b = map (\<lambda>t. \<lparr>text' = t, type' = ty\<rparr>) (take (b - a) (drop a xs))"
proof (induction b)
  case 0
  then show ?case by (simp add: pushRange_def)
next
  case (Suc b)
  show ?case
  proof (cases "a = Suc b")
    case True
    then show ?thesis by (simp add: pushRange_def)
  next
    case False
    with Suc.prems have ab: "a \<le> b" "b < length xs" by auto
    have "pushRange xs ty a (Suc b) = pushRange xs ty a b @ [\<lparr>text' = xs ! b, type' = ty\<rparr>]"
      using ab by (simp add: pushRange_def at_in_range)
    moreover have "take (Suc b - a) (drop a xs) = take (b - a) (drop a xs) @ [xs ! b]"
      using ab by (simp add: Suc_diff_le take_Suc_conv_app_nth)
    ultimately show ?thesis
      using Suc.IH ab by simp
  qed
qed

section \<open>The outcomes of one iteration\<close>

lemma step_left_exhausted:
  "length left \<le> i \<Longrightarrow> j < length right \<Longrightarrow>
   step left right (i, j, result) = (i, j + 1, result @ [\<lparr>text' = right ! j, type' = added\<rparr>])"
  by (simp add: step_def at_in_range)

lemma step_right_exhausted:
  "i < length left \<Longrightarrow> length right \<le> j \<Longrightarrow>
   step left right (i, j, result) = (i + 1, j, result @ [\<lparr>text' = left ! i, type' = removed\<rparr>])"
  by (simp add: step_def at_in_range)

lemma step_match:
  "i < length left \<Longrightarrow> j < length right \<Longrightarrow> left ! i = right ! j \<Longrightarrow>
   step left right (i, j, result) = (i + 1, j + 1, result @ [\<lparr>text' = left ! i, type' = unchanged\<rparr>])"
  by (simp add: step_def at_in_range)

lemma step_mismatch:
  "i < length left \<Longrightarrow> j < length right \<Longrightarrow> left ! i \<noteq> right ! j \<Longrightarrow>
   step left right (i, j, result) =
     (case lookahead right (left ! i) j (j + 1) of
        Some (k, rightCandidate) \<Rightarrow>
          (i + 1, k + 1,
           result @ pushRange right added j k @ [\<lparr>text' = left ! i, type' = unchanged\<rparr>])
      | None \<Rightarrow>
          (case lookahead left (right ! j) i (i + 1) of
             Some (k, leftCandidate) \<Rightarrow>
               (k + 1, j + 1,
                result @ pushRange left removed i k
                       @ [\<lparr>text' = leftCandidate, type' = unchanged\<rparr>])
           | None \<Rightarrow>
               (i + 1, j + 1,
                result @ [\<lparr>text' = left ! i, type' = removed\<rparr>,
                          \<lparr>text' = right ! j, type' = added\<rparr>])))"
  by (simp add: step_def at_in_range)

lemma step_insertion:
  assumes "i < length left" "j < length right" "left ! i \<noteq> right ! j"
    and "lookahead right (left ! i) j (j + 1) = Some (k, c)"
  shows "step left right (i, j, result) =
     (i + 1, k + 1,
      result @ map (\<lambda>t. \<lparr>text' = t, type' = added\<rparr>) (take (k - j) (drop j right))
             @ [\<lparr>text' = left ! i, type' = unchanged\<rparr>])"
proof -
  from assms(4) have "j \<le> k" "k \<le> length right"
    by (auto simp: lookahead_Some_iff)
  then show ?thesis
    using assms by (simp add: step_mismatch pushRange_in_range)
qed

lemma step_deletion:
  assumes "i < length left" "j < length right" "left ! i \<noteq> right ! j"
    and "lookahead right (left ! i) j (j + 1) = None"
    and "lookahead left (right ! j) i (i + 1) = Some (k, c)"
  shows "step left right (i, j, result) =
     (k + 1, j + 1,
      result @ map (\<lambda>t. \<lparr>text' = t, type' = removed\<rparr>) (take (k - i) (drop i left))
             @ [\<lparr>text' = right ! j, type' = unchanged\<rparr>])"
proof -
  from assms(5) have "i \<le> k" "k \<le> length left" "c = right ! j"
    by (auto simp: lookahead_Some_iff)
  then show ?thesis
    using assms by (simp add: step_mismatch pushRange_in_range)
qed

lemma step_replacement:
  assumes "i < length left" "j < length right" "left ! i \<noteq> right ! j"
    and "lookahead right (left ! i) j (j + 1) = None"
    and "lookahead left (right ! j) i (i + 1) = None"
  shows "step left right (i, j, result) =
     (i + 1, j + 1,
      result @ [\<lparr>text' = left ! i, type' = removed\<rparr>, \<lparr>text' = right ! j, type' = added\<rparr>])"
  using assms by (simp add: step_mismatch)

text \<open>The six outcomes of an iteration, as a case rule.\<close>

lemma step_cases [consumes 1, case_names Add Rem Same Ins Del Repl]:
  assumes "i < length left \<or> j < length right"
  obtains
    (Add) "length left \<le> i" "j < length right"
      "step left right (i, j, result) = (i, j + 1, result @ [\<lparr>text' = right ! j, type' = added\<rparr>])"
  | (Rem) "i < length left" "length right \<le> j"
      "step left right (i, j, result) = (i + 1, j, result @ [\<lparr>text' = left ! i, type' = removed\<rparr>])"
  | (Same) "i < length left" "j < length right" "left ! i = right ! j"
      "step left right (i, j, result) =
         (i + 1, j + 1, result @ [\<lparr>text' = left ! i, type' = unchanged\<rparr>])"
  | (Ins) k where "i < length left" "j < length right" "left ! i \<noteq> right ! j"
      "j < k" "k < length right" "right ! k = left ! i"
      "step left right (i, j, result) =
         (i + 1, k + 1,
          result @ map (\<lambda>t. \<lparr>text' = t, type' = added\<rparr>) (take (k - j) (drop j right))
                 @ [\<lparr>text' = left ! i, type' = unchanged\<rparr>])"
  | (Del) k where "i < length left" "j < length right" "left ! i \<noteq> right ! j"
      "i < k" "k < length left" "left ! k = right ! j"
      "step left right (i, j, result) =
         (k + 1, j + 1,
          result @ map (\<lambda>t. \<lparr>text' = t, type' = removed\<rparr>) (take (k - i) (drop i left))
                 @ [\<lparr>text' = right ! j, type' = unchanged\<rparr>])"
  | (Repl) "i < length left" "j < length right" "left ! i \<noteq> right ! j"
      "step left right (i, j, result) =
         (i + 1, j + 1,
          result @ [\<lparr>text' = left ! i, type' = removed\<rparr>, \<lparr>text' = right ! j, type' = added\<rparr>])"
proof (cases "length left \<le> i")
  case True
  with assms Add step_left_exhausted show ?thesis by simp
next
  case il: False
  show ?thesis
  proof (cases "length right \<le> j")
    case True
    with il Rem step_right_exhausted show ?thesis by simp
  next
    case jl: False
    show ?thesis
    proof (cases "left ! i = right ! j")
      case True
      with il jl Same step_match show ?thesis by simp
    next
      case ne: False
      show ?thesis
      proof (cases "lookahead right (left ! i) j (j + 1)")
        case nr: None
        show ?thesis
        proof (cases "lookahead left (right ! j) i (i + 1)")
          case None
          with il jl ne nr Repl step_replacement show ?thesis by simp
        next
          case (Some p)
          obtain k c where p: "p = (k, c)" by (cases p) auto
          have "i < k" "k < length left" "left ! k = right ! j"
            using Some unfolding p by (auto simp: lookahead_Some_iff)
          moreover have "step left right (i, j, result) =
             (k + 1, j + 1,
              result @ map (\<lambda>t. \<lparr>text' = t, type' = removed\<rparr>) (take (k - i) (drop i left))
                     @ [\<lparr>text' = right ! j, type' = unchanged\<rparr>])"
            using il jl ne nr Some unfolding p by (intro step_deletion) auto
          ultimately show ?thesis
            using il jl ne Del by simp
        qed
      next
        case (Some p)
        obtain k c where p: "p = (k, c)" by (cases p) auto
        have "j < k" "k < length right" "right ! k = left ! i"
          using Some unfolding p by (auto simp: lookahead_Some_iff)
        moreover have "step left right (i, j, result) =
           (i + 1, k + 1,
            result @ map (\<lambda>t. \<lparr>text' = t, type' = added\<rparr>) (take (k - j) (drop j right))
                   @ [\<lparr>text' = left ! i, type' = unchanged\<rparr>])"
          using il jl ne Some unfolding p by (intro step_insertion) auto
        ultimately show ?thesis
          using il jl ne Ins by simp
      qed
    qed
  qed
qed

section \<open>Invariants of the loop\<close>

lemma computeDiff_loop_invariant:
  assumes "I (i, j, result)"
    and "\<And>i j result. I (i, j, result) \<Longrightarrow> i < length left \<or> j < length right \<Longrightarrow>
           I (step left right (i, j, result))"
  shows "\<exists>i' j'. length left \<le> i' \<and> length right \<le> j' \<and>
           I (i', j', computeDiff_loop left right (i, j, result))"
  using assms
proof (induction left right "(i, j, result)" arbitrary: i j result rule: computeDiff_loop.induct)
  case (1 left right i j result)
  show ?case
  proof (cases "i < length left \<or> j < length right")
    case True
    obtain i1 j1 r1 where st: "step left right (i, j, result) = (i1, j1, r1)"
      by (cases "step left right (i, j, result)") auto
    have "I (i1, j1, r1)"
      using "1.prems"(2) [OF "1.prems"(1) True] st by simp
    then have "\<exists>i' j'. length left \<le> i' \<and> length right \<le> j' \<and>
           I (i', j', computeDiff_loop left right (i1, j1, r1))"
      using "1.hyps" [OF True st] "1.prems"(2) by blast
    then show ?thesis
      using True st by (subst computeDiff_loop.simps) simp
  next
    case False
    then have "computeDiff_loop left right (i, j, result) = result"
      by (subst computeDiff_loop.simps) simp
    with False "1.prems"(1) show ?thesis
      by (intro exI [of _ i] exI [of _ j]) simp
  qed
qed

lemma take_slice: "j \<le> k \<Longrightarrow> take j xs @ take (k - j) (drop j xs) = take k xs"
  using take_add [of j "k - j" xs] by simp

lemma take_slice_snoc:
  "j \<le> k \<Longrightarrow> k < length xs \<Longrightarrow> take j xs @ take (k - j) (drop j xs) @ [xs ! k] = take (Suc k) xs"
  using take_slice [of j k xs] by (simp add: take_Suc_conv_app_nth flip: append_assoc)

lemma aligned_step:
  assumes "aligned left right (i, j, result)" and "i < length left \<or> j < length right"
  shows "aligned left right (step left right (i, j, result))"
  using assms(2)
proof (cases rule: step_cases [where result = result])
  case Add
  with assms(1) show ?thesis
    by (simp add: aligned_def take_Suc_conv_app_nth)
next
  case Rem
  with assms(1) show ?thesis
    by (simp add: aligned_def take_Suc_conv_app_nth)
next
  case Same
  with assms(1) show ?thesis
    by (simp add: aligned_def take_Suc_conv_app_nth)
next
  case (Ins k)
  with assms(1) show ?thesis
    by (auto simp: aligned_def take_Suc_conv_app_nth filter_map comp_def take_slice less_imp_le)
next
  case (Del k)
  with assms(1) show ?thesis
    by (auto simp: aligned_def take_Suc_conv_app_nth filter_map comp_def take_slice less_imp_le)
next
  case Repl
  with assms(1) show ?thesis
    by (simp add: aligned_def take_Suc_conv_app_nth)
qed

lemma aligned_computeDiff:
  "aligned left right (length left, length right, computeDiff left right)"
proof -
  have "aligned left right (0, 0, [])"
    by (simp add: aligned_def)
  from computeDiff_loop_invariant [of "aligned left right", OF this aligned_step]
  obtain i' j' where "length left \<le> i'" "length right \<le> j'"
    "aligned left right (i', j', computeDiff left right)"
    unfolding computeDiff_def by blast
  moreover from this have "i' = length left" "j' = length right"
    by (auto simp: aligned_def)
  ultimately show ?thesis by simp
qed

lemma computeDiff_left_tokens:
  "map text' (filter (\<lambda>s. type' s = unchanged \<or> type' s = removed) (computeDiff left right)) = left"
  using aligned_computeDiff [of left right] by (simp add: aligned_def)

lemma computeDiff_right_tokens:
  "map text' (filter (\<lambda>s. type' s = unchanged \<or> type' s = added) (computeDiff left right)) = right"
  using aligned_computeDiff [of left right] by (simp add: aligned_def)

lemma step_measure:
  assumes "i < length left \<or> j < length right"
    and "step left right (i, j, result) = (i', j', result')"
  shows "i \<le> i' \<and> j \<le> j' \<and> (i < i' \<or> j < j') \<and>
         (length left - i') + (length right - j') < (length left - i) + (length right - j)"
  using assms(1)
proof (cases rule: step_cases [where result = result])
  case (Ins k)
  with assms(2) show ?thesis by auto
next
  case (Del k)
  with assms(2) show ?thesis by auto
qed (use assms(2) in auto)

lemma computeDiff_loop_iterations:
  "\<exists>n i' j'. n \<le> (length left - i) + (length right - j) \<and>
     (step left right ^^ n) (i, j, result) = (i', j', computeDiff_loop left right (i, j, result)) \<and>
     length left \<le> i' \<and> length right \<le> j'"
proof (induction left right "(i, j, result)" arbitrary: i j result rule: computeDiff_loop.induct)
  case (1 left right i j result)
  show ?case
  proof (cases "i < length left \<or> j < length right")
    case True
    obtain i1 j1 r1 where st: "step left right (i, j, result) = (i1, j1, r1)"
      by (cases "step left right (i, j, result)") auto
    from "1.hyps" [OF True st] obtain n i' j' where
      n: "n \<le> (length left - i1) + (length right - j1)"
      and run: "(step left right ^^ n) (i1, j1, r1) = (i', j', computeDiff_loop left right (i1, j1, r1))"
      and fin: "length left \<le> i'" "length right \<le> j'"
      by blast
    have "Suc n \<le> (length left - i) + (length right - j)"
      using n step_measure [OF True st] by simp
    moreover have "(step left right ^^ Suc n) (i, j, result) = (step left right ^^ n) (i1, j1, r1)"
      by (simp add: funpow_swap1 st)
    moreover have "computeDiff_loop left right (i, j, result) = computeDiff_loop left right (i1, j1, r1)"
      using True st by (subst computeDiff_loop.simps) simp
    ultimately have "Suc n \<le> (length left - i) + (length right - j) \<and>
      (step left right ^^ Suc n) (i, j, result) = (i', j', computeDiff_loop left right (i, j, result)) \<and>
      length left \<le> i' \<and> length right \<le> j'"
      using run fin by simp
    then show ?thesis by blast
  next
    case False
    then have "computeDiff_loop left right (i, j, result) = result"
      by (subst computeDiff_loop.simps) simp
    with False have "0 \<le> (length left - i) + (length right - j) \<and>
      (step left right ^^ 0) (i, j, result) = (i, j, computeDiff_loop left right (i, j, result)) \<and>
      length left \<le> i \<and> length right \<le> j"
      by simp
    then show ?thesis by blast
  qed
qed

lemma computeDiff_same:
  "computeDiff xs xs = map (\<lambda>t. \<lparr>text' = t, type' = unchanged\<rparr>) xs"
proof -
  define I where "I = (\<lambda>st. case st of (i, j, result) \<Rightarrow>
    i = j \<and> i \<le> length xs \<and> result = map (\<lambda>t. \<lparr>text' = t, type' = unchanged\<rparr>) (take i xs))"
  have init: "I (0, 0, [])"
    by (simp add: I_def)
  have pres: "I (step xs xs (i, j, result))"
    if "I (i, j, result)" and "i < length xs \<or> j < length xs" for i j result
  proof -
    from that have "i < length xs" "j = i"
      "result = map (\<lambda>t. \<lparr>text' = t, type' = unchanged\<rparr>) (take i xs)"
      by (auto simp: I_def)
    then show ?thesis
      by (simp add: step_match I_def take_Suc_conv_app_nth)
  qed
  from computeDiff_loop_invariant [of I, OF init pres]
  show ?thesis
    unfolding computeDiff_def by (auto simp: I_def)
qed

lemma lookahead_window_None:
  "lookahead xs target c (c + 1) = None \<longleftrightarrow> target \<notin> set (take 4 (drop (c + 1) xs))"
  unfolding lookahead_None_iff window_conv by blast

section \<open>Facts about the split and the trim\<close>

lemma split_ws_no_separator:
  assumes "dropWhile (\<lambda>c. \<not> is_whitespace c) s = []"
  shows "split_ws s = [s]"
  by (subst split_ws.simps) (simp only: assms list.case)

lemma split_ws_separator:
  assumes "dropWhile (\<lambda>c. \<not> is_whitespace c) s = c # cs"
  shows "split_ws s = takeWhile (\<lambda>c. \<not> is_whitespace c) s
                  # takeWhile is_whitespace (c # cs)
                  # split_ws (dropWhile is_whitespace (c # cs))"
  by (subst split_ws.simps) (simp only: assms list.case)

lemma split_ws_no_whitespace:
  "\<forall>c \<in> set w. \<not> is_whitespace c \<Longrightarrow> split_ws w = [w]"
  by (rule split_ws_no_separator) simp

lemma concat_split_ws: "concat (split_ws s) = s"
proof (induction s rule: split_ws.induct)
  case (1 s)
  show ?case
  proof (cases "dropWhile (\<lambda>c. \<not> is_whitespace c) s")
    case Nil
    then show ?thesis by (simp add: split_ws_no_separator)
  next
    case (Cons c cs)
    have "concat (split_ws s) =
      takeWhile (\<lambda>c. \<not> is_whitespace c) s @ takeWhile is_whitespace (c # cs)
        @ concat (split_ws (dropWhile is_whitespace (c # cs)))"
      by (simp add: split_ws_separator [OF Cons])
    also have "concat (split_ws (dropWhile is_whitespace (c # cs))) = dropWhile is_whitespace (c # cs)"
      by (rule "1.IH" [OF Cons])
    also have "takeWhile is_whitespace (c # cs) @ dropWhile is_whitespace (c # cs) = c # cs"
      by (rule takeWhile_dropWhile_id)
    also have "takeWhile (\<lambda>c. \<not> is_whitespace c) s @ c # cs = s"
      unfolding Cons [symmetric] by (rule takeWhile_dropWhile_id)
    finally show ?thesis .
  qed
qed

lemma trim_empty_iff: "trim s = [] \<longleftrightarrow> (\<forall>c \<in> set s. is_whitespace c)"
proof
  assume "trim s = []"
  then have "\<forall>c \<in> set (dropWhile is_whitespace s). is_whitespace c"
    by (simp add: trim_def)
  moreover have "\<forall>c \<in> set (takeWhile is_whitespace s). is_whitespace c"
    by (auto dest: set_takeWhileD)
  moreover have "set s = set (takeWhile is_whitespace s) \<union> set (dropWhile is_whitespace s)"
    by (metis set_append takeWhile_dropWhile_id)
  ultimately show "\<forall>c \<in> set s. is_whitespace c"
    by blast
next
  assume "\<forall>c \<in> set s. is_whitespace c"
  then have d: "dropWhile is_whitespace s = []"
    by simp
  show "trim s = []"
    unfolding trim_def d by simp
qed

lemma split_ws_not_Nil: "split_ws s \<noteq> []"
  by (subst split_ws.simps) (simp split: list.splits)

lemma split_ws_first: "split_ws s ! 0 = takeWhile (\<lambda>c. \<not> is_whitespace c) s"
proof (cases "dropWhile (\<lambda>c. \<not> is_whitespace c) s")
  case Nil
  then have tk: "takeWhile (\<lambda>c. \<not> is_whitespace c) s = s"
    by (metis append_Nil2 takeWhile_dropWhile_id)
  have sp: "split_ws s = [s]"
    by (rule split_ws_no_separator [OF Nil])
  show ?thesis
    unfolding sp tk by simp
next
  case (Cons c cs)
  then show ?thesis
    by (simp add: split_ws_separator)
qed

lemma separator_starts_with_whitespace:
  assumes "dropWhile (\<lambda>c. \<not> is_whitespace c) s = c # cs"
  shows "is_whitespace c"
  using hd_dropWhile [of "\<lambda>c. \<not> is_whitespace c" s] assms by simp

lemma split_ws_length_odd: "odd (length (split_ws s))"
proof (induction s rule: split_ws.induct)
  case (1 s)
  show ?case
  proof (cases "dropWhile (\<lambda>c. \<not> is_whitespace c) s")
    case Nil
    then show ?thesis by (simp add: split_ws_no_separator)
  next
    case (Cons c cs)
    with "1.IH" [OF Cons] show ?thesis
      by (simp add: split_ws_separator)
  qed
qed

lemma split_ws_classes:
  "n < length (split_ws s) \<Longrightarrow>
     (even n \<longrightarrow> (\<forall>c \<in> set (split_ws s ! n). \<not> is_whitespace c)) \<and>
     (odd n \<longrightarrow> split_ws s ! n \<noteq> [] \<and> (\<forall>c \<in> set (split_ws s ! n). is_whitespace c))"
proof (induction s arbitrary: n rule: split_ws.induct)
  case (1 s)
  show ?case
  proof (cases "dropWhile (\<lambda>c. \<not> is_whitespace c) s")
    case Nil
    then have all: "\<forall>c \<in> set s. \<not> is_whitespace c"
      by simp
    have sp: "split_ws s = [s]"
      by (rule split_ws_no_separator [OF Nil])
    from "1.prems" have "n = 0"
      by (simp add: sp)
    with all show ?thesis
      by (simp add: sp)
  next
    case (Cons c cs)
    define r where "r = dropWhile is_whitespace (c # cs)"
    define a where "a = takeWhile (\<lambda>c. \<not> is_whitespace c) s"
    define b where "b = takeWhile is_whitespace (c # cs)"
    have sp: "split_ws s = a # b # split_ws r"
      unfolding r_def a_def b_def by (rule split_ws_separator [OF Cons])
    have "is_whitespace c"
      by (rule separator_starts_with_whitespace [OF Cons])
    then have b: "b \<noteq> []" "\<forall>c \<in> set b. is_whitespace c"
      unfolding b_def by (auto dest: set_takeWhileD)
    have a: "\<forall>c \<in> set a. \<not> is_whitespace c"
      unfolding a_def by (auto dest: set_takeWhileD)
    show ?thesis
    proof (cases n)
      case 0
      with a show ?thesis
        by (simp add: sp)
    next
      case (Suc m)
      show ?thesis
      proof (cases m)
        case 0
        with Suc b show ?thesis
          by (simp add: sp)
      next
        case (Suc l)
        with \<open>n = Suc m\<close> "1.prems" have "l < length (split_ws r)"
          by (simp add: sp)
        from "1.IH" [OF Cons this [unfolded r_def]]
        have "(even l \<longrightarrow> (\<forall>c \<in> set (split_ws r ! l). \<not> is_whitespace c)) \<and>
              (odd l \<longrightarrow> split_ws r ! l \<noteq> [] \<and> (\<forall>c \<in> set (split_ws r ! l). is_whitespace c))"
          unfolding r_def .
        moreover have "split_ws s ! n = split_ws r ! l" "even n \<longleftrightarrow> even l"
          using Suc \<open>n = Suc m\<close> by (simp_all add: sp)
        ultimately show ?thesis
          by simp
      qed
    qed
  qed
qed

lemma split_ws_inner_nonempty:
  "0 < n \<Longrightarrow> n + 1 < length (split_ws s) \<Longrightarrow> split_ws s ! n \<noteq> []"
proof (induction s arbitrary: n rule: split_ws.induct)
  case (1 s)
  show ?case
  proof (cases "dropWhile (\<lambda>c. \<not> is_whitespace c) s")
    case Nil
    have "split_ws s = [s]"
      by (rule split_ws_no_separator [OF Nil])
    with "1.prems" show ?thesis
      by simp
  next
    case (Cons c cs)
    define r where "r = dropWhile is_whitespace (c # cs)"
    have sp: "split_ws s = takeWhile (\<lambda>c. \<not> is_whitespace c) s
                # takeWhile is_whitespace (c # cs) # split_ws r"
      unfolding r_def by (rule split_ws_separator [OF Cons])
    have ws: "is_whitespace c"
      by (rule separator_starts_with_whitespace [OF Cons])
    then have sep: "takeWhile is_whitespace (c # cs) \<noteq> []"
      by simp
    from "1.prems" obtain m where n: "n = Suc m" by (cases n) auto
    show ?thesis
    proof (cases m)
      case 0
      with n sep show ?thesis by (simp add: sp)
    next
      case (Suc l)
      show ?thesis
      proof (cases l)
        case 0
        have long: "1 < length (split_ws r)"
          using "1.prems" n Suc 0 by (simp add: sp)
        have "r \<noteq> []"
        proof
          assume "r = []"
          then have "split_ws r = [[]]"
            by (simp add: split_ws_no_separator)
          with long show False by simp
        qed
        moreover have "\<not> is_whitespace (hd r)" if "r \<noteq> []"
          using that unfolding r_def by (rule hd_dropWhile)
        ultimately have "takeWhile (\<lambda>c. \<not> is_whitespace c) r \<noteq> []"
          by (cases r) auto
        then have "split_ws r ! 0 \<noteq> []"
          by (simp only: split_ws_first not_False_eq_True)
        then show ?thesis
          using n Suc 0 by (simp add: sp)
      next
        case (Suc l')
        have "0 < l" "l + 1 < length (split_ws r)"
          using "1.prems" n \<open>m = Suc l\<close> Suc by (simp_all add: sp)
        from "1.IH" [OF Cons this [unfolded r_def]] show ?thesis
          using n \<open>m = Suc l\<close> by (simp add: sp r_def)
      qed
    qed
  qed
qed

lemma computeDiff_empty_against_word:
  assumes "w \<noteq> []"
  shows "computeDiff [[]] [w] = [\<lparr>text' = [], type' = removed\<rparr>, \<lparr>text' = w, type' = added\<rparr>]"
proof -
  have ne: "[[]] ! 0 \<noteq> [w] ! 0"
    using assms by simp
  have "lookahead [w] ([[]] ! 0) 0 (0 + 1) = None" "lookahead [[]] ([w] ! 0) 0 (0 + 1) = None"
    by (simp_all add: lookahead_None_iff)
  then have "step [[]] [w] (0, 0, []) =
      (0 + 1, 0 + 1, [] @ [\<lparr>text' = [[]] ! 0, type' = removed\<rparr>, \<lparr>text' = [w] ! 0, type' = added\<rparr>])"
    using ne by (intro step_replacement) simp_all
  then have st: "step [[]] [w] (0, 0, []) =
      (1, 1, [\<lparr>text' = [], type' = removed\<rparr>, \<lparr>text' = w, type' = added\<rparr>])"
    by simp
  have "computeDiff [[]] [w] =
      computeDiff_loop [[]] [w] (1, 1, [\<lparr>text' = [], type' = removed\<rparr>, \<lparr>text' = w, type' = added\<rparr>])"
    unfolding computeDiff_def by (subst computeDiff_loop.simps) (simp add: st)
  also have "\<dots> = [\<lparr>text' = [], type' = removed\<rparr>, \<lparr>text' = w, type' = added\<rparr>]"
    by (subst computeDiff_loop.simps) simp
  finally show ?thesis .
qed

section \<open>Properties of the aligner\<close>

text \<open>
  Claim C1 (reconstruction). For all token lists \<open>left\<close> and \<open>right\<close>, the texts of the
  segments of \<open>computeDiff left right\<close> whose type is unchanged or removed, concatenated
  in output order, are the concatenation of \<open>left\<close>, and the texts of the segments whose
  type is unchanged or added, concatenated in output order, are the concatenation of
  \<open>right\<close>.
\<close>

theorem computeDiff_reconstruction:
  "concat (map text' (filter (\<lambda>s. type' s = unchanged \<or> type' s = removed)
             (computeDiff left right))) = concat left \<and>
   concat (map text' (filter (\<lambda>s. type' s = unchanged \<or> type' s = added)
             (computeDiff left right))) = concat right"
  by (simp add: computeDiff_left_tokens computeDiff_right_tokens)

text \<open>
  Claim C2 (termination with length bounds). Whenever the loop condition holds, one
  iteration moves neither cursor back and moves at least one of them forward; from the
  initial state the loop is left after at most \<open>length left + length right\<close> iterations,
  with \<open>computeDiff left right\<close> as the value of \<open>result\<close>; and the number of segments is
  at least the larger of the two lengths and at most their sum.
\<close>

theorem computeDiff_terminates_within_bounds:
  "(i < length left \<or> j < length right \<longrightarrow>
      (case step left right (i, j, result) of
         (i', j', result') \<Rightarrow> i \<le> i' \<and> j \<le> j' \<and> (i < i' \<or> j < j'))) \<and>
   (\<exists>n \<le> length left + length right.
      case (step left right ^^ n) (0, 0, []) of
        (i', j', result') \<Rightarrow>
          \<not> (i' < length left \<or> j' < length right) \<and> computeDiff left right = result') \<and>
   max (length left) (length right) \<le> length (computeDiff left right) \<and>
   length (computeDiff left right) \<le> length left + length right"
proof (intro conjI impI)
  assume cond: "i < length left \<or> j < length right"
  obtain i' j' result' where st: "step left right (i, j, result) = (i', j', result')"
    by (cases "step left right (i, j, result)") auto
  from step_measure [OF cond st]
  show "case step left right (i, j, result) of
         (i', j', result') \<Rightarrow> i \<le> i' \<and> j \<le> j' \<and> (i < i' \<or> j < j')"
    unfolding st by simp
next
  from computeDiff_loop_iterations [of left 0 right 0 "[]"]
  obtain n i' j' where "n \<le> length left + length right"
    "(step left right ^^ n) (0, 0, []) = (i', j', computeDiff left right)"
    "length left \<le> i'" "length right \<le> j'"
    unfolding computeDiff_def by auto
  then have "n \<le> length left + length right \<and>
      (case (step left right ^^ n) (0, 0, []) of
        (i', j', result') \<Rightarrow>
          \<not> (i' < length left \<or> j' < length right) \<and> computeDiff left right = result')"
    by simp
  then show "\<exists>n \<le> length left + length right.
      case (step left right ^^ n) (0, 0, []) of
        (i', j', result') \<Rightarrow>
          \<not> (i' < length left \<or> j' < length right) \<and> computeDiff left right = result'"
    by (rule exI)
next
  show "max (length left) (length right) \<le> length (computeDiff left right)"
    using aligned_computeDiff [of left right] by (simp add: aligned_def)
next
  show "length (computeDiff left right) \<le> length left + length right"
    using aligned_computeDiff [of left right] by (simp add: aligned_def)
qed

theorem computeDiff_terminates_within_bounds_witness:
  "(0 < length [[0x61 :: 16 word]] \<or> 0 < length [[0x62 :: 16 word]]) \<and>
   (case step [[0x61]] [[0x62]] (0, 0, []) of
      (i', j', result') \<Rightarrow> 0 \<le> i' \<and> 0 \<le> j' \<and> (0 < i' \<or> 0 < j'))"
  using computeDiff_terminates_within_bounds [of 0 "[[0x61]]" 0 "[[0x62]]" "[]"]
  by simp

text \<open>
  Claim C3 (identity). For every string \<open>s\<close>, aligning the tokens of \<open>s\<close> against
  themselves gives one unchanged segment per token, in the order of the tokens, each
  with the text of its token, and no added or removed segment.
\<close>

theorem computeDiff_identity:
  "computeDiff (split_ws s) (split_ws s) =
     map (\<lambda>t. \<lparr>text' = t, type' = unchanged\<rparr>) (split_ws s)"
  by (rule computeDiff_same)

text \<open>
  Claim C10 (common subsequence). For all token lists \<open>left\<close> and \<open>right\<close>, the texts of
  the unchanged segments of \<open>computeDiff left right\<close>, in output order, are a subsequence
  of \<open>left\<close> and a subsequence of \<open>right\<close>: they sit at strictly increasing positions of
  both inputs.
\<close>

theorem computeDiff_unchanged_common_subsequence:
  "subseq (map text' (filter (\<lambda>s. type' s = unchanged) (computeDiff left right))) left \<and>
   subseq (map text' (filter (\<lambda>s. type' s = unchanged) (computeDiff left right))) right"
proof
  let ?res = "computeDiff left right"
  have "filter (\<lambda>s. type' s = unchanged) ?res =
        filter (\<lambda>s. type' s = unchanged) (filter (\<lambda>s. type' s = unchanged \<or> type' s = removed) ?res)"
    by (simp add: conj_commute cong: conj_cong)
  then have "subseq (filter (\<lambda>s. type' s = unchanged) ?res)
               (filter (\<lambda>s. type' s = unchanged \<or> type' s = removed) ?res)"
    by (metis subseq_filter_left)
  then have "subseq (map text' (filter (\<lambda>s. type' s = unchanged) ?res))
               (map text' (filter (\<lambda>s. type' s = unchanged \<or> type' s = removed) ?res))"
    by (rule subseq_map)
  then show "subseq (map text' (filter (\<lambda>s. type' s = unchanged) ?res)) left"
    by (simp only: computeDiff_left_tokens)
next
  let ?res = "computeDiff left right"
  have "filter (\<lambda>s. type' s = unchanged) ?res =
        filter (\<lambda>s. type' s = unchanged) (filter (\<lambda>s. type' s = unchanged \<or> type' s = added) ?res)"
    by (simp add: conj_commute cong: conj_cong)
  then have "subseq (filter (\<lambda>s. type' s = unchanged) ?res)
               (filter (\<lambda>s. type' s = unchanged \<or> type' s = added) ?res)"
    by (metis subseq_filter_left)
  then have "subseq (map text' (filter (\<lambda>s. type' s = unchanged) ?res))
               (map text' (filter (\<lambda>s. type' s = unchanged \<or> type' s = added) ?res))"
    by (rule subseq_map)
  then show "subseq (map text' (filter (\<lambda>s. type' s = unchanged) ?res)) right"
    by (simp only: computeDiff_right_tokens)
qed

text \<open>
  Claim C4 (window boundary). A lookahead started at cursor \<open>c\<close> finds nothing exactly
  when the target is not among the four elements at positions \<open>c + 1\<close> to \<open>c + 4\<close>, and
  an index it finds lies in that range. So at a mismatch where neither the four tokens
  after \<open>j\<close> in \<open>right\<close> contain \<open>left[i]\<close> nor the four tokens after \<open>i\<close> in \<open>left\<close>
  contain \<open>right[j]\<close>, the iteration pushes \<open>left[i]\<close> as removed, then \<open>right[j]\<close> as
  added, and advances both cursors by one, whatever stands five or more positions
  ahead.
\<close>

theorem lookahead_window_boundary:
  "(lookahead xs target c (c + 1) = None \<longleftrightarrow> target \<notin> set (take 4 (drop (c + 1) xs))) \<and>
   (\<forall>k candidate. lookahead xs target c (c + 1) = Some (k, candidate) \<longrightarrow>
        c + 1 \<le> k \<and> k \<le> c + 4) \<and>
   (i < length left \<and> j < length right \<and> left ! i \<noteq> right ! j \<and>
    left ! i \<notin> set (take 4 (drop (j + 1) right)) \<and>
    right ! j \<notin> set (take 4 (drop (i + 1) left)) \<longrightarrow>
      step left right (i, j, result) =
        (i + 1, j + 1,
         result @ [\<lparr>text' = left ! i, type' = removed\<rparr>, \<lparr>text' = right ! j, type' = added\<rparr>]))"
proof (intro conjI allI impI)
  show "lookahead xs target c (c + 1) = None \<longleftrightarrow> target \<notin> set (take 4 (drop (c + 1) xs))"
    by (rule lookahead_window_None)
next
  fix k candidate
  assume "lookahead xs target c (c + 1) = Some (k, candidate)"
  then have "c + 1 \<le> k" "k < c + 5"
    by (simp_all add: lookahead_Some_iff)
  then show "c + 1 \<le> k" "k \<le> c + 4"
    by simp_all
next
  assume a: "i < length left \<and> j < length right \<and> left ! i \<noteq> right ! j \<and>
    left ! i \<notin> set (take 4 (drop (j + 1) right)) \<and>
    right ! j \<notin> set (take 4 (drop (i + 1) left))"
  then have "lookahead right (left ! i) j (j + 1) = None"
    "lookahead left (right ! j) i (i + 1) = None"
    unfolding lookahead_window_None by blast+
  with a show "step left right (i, j, result) =
        (i + 1, j + 1,
         result @ [\<lparr>text' = left ! i, type' = removed\<rparr>, \<lparr>text' = right ! j, type' = added\<rparr>])"
    by (intro step_replacement) simp_all
qed

theorem lookahead_window_boundary_witness:
  "lookahead [[0x61 :: 16 word], [0x70], [0x70], [0x70], [0x62], [0x62]] [0x62] 0 (0 + 1)
     = Some (4, [0x62]) \<and>
   (0::nat) + 1 \<le> 4 \<and> (4::nat) \<le> 0 + 4 \<and>
   (0::nat) < length [[0x61 :: 16 word], [0x70], [0x70], [0x70], [0x70], [0x62]] \<and>
   (0::nat) < length [[0x62 :: 16 word], [0x71], [0x71], [0x71], [0x71], [0x61]] \<and>
   [[0x61 :: 16 word], [0x70], [0x70], [0x70], [0x70], [0x62]] ! 0
     \<noteq> [[0x62], [0x71], [0x71], [0x71], [0x71], [0x61]] ! 0 \<and>
   [[0x61 :: 16 word], [0x70], [0x70], [0x70], [0x70], [0x62]] ! 0
     = [[0x62], [0x71], [0x71], [0x71], [0x71], [0x61]] ! 5 \<and>
   [[0x61 :: 16 word], [0x70], [0x70], [0x70], [0x70], [0x62]] ! 5
     = [[0x62], [0x71], [0x71], [0x71], [0x71], [0x61]] ! 0 \<and>
   [[0x61 :: 16 word], [0x70], [0x70], [0x70], [0x70], [0x62]] ! 0
     \<notin> set (take 4 (drop (0 + 1) [[0x62], [0x71], [0x71], [0x71], [0x71], [0x61]])) \<and>
   [[0x62 :: 16 word], [0x71], [0x71], [0x71], [0x71], [0x61]] ! 0
     \<notin> set (take 4 (drop (0 + 1) [[0x61], [0x70], [0x70], [0x70], [0x70], [0x62]])) \<and>
   step [[0x61], [0x70], [0x70], [0x70], [0x70], [0x62]]
        [[0x62], [0x71], [0x71], [0x71], [0x71], [0x61]] (0, 0, []) =
     (1, 1, [\<lparr>text' = [0x61], type' = removed\<rparr>, \<lparr>text' = [0x62], type' = added\<rparr>])"
  using lookahead_window_boundary
    [of "[[0x61], [0x70], [0x70], [0x70], [0x62], [0x62]]" "[0x62]" 0
        0 "[[0x61], [0x70], [0x70], [0x70], [0x70], [0x62]]"
        0 "[[0x62], [0x71], [0x71], [0x71], [0x71], [0x61]]" "[]"]
  by (simp add: lookahead.simps at_def)

text \<open>
  Claim C5 (tie-break). At a mismatch where \<open>k\<close> is the first index among the four
  after \<open>j\<close> with \<open>right[k] = left[i]\<close>, and \<open>right[j]\<close> also occurs among the four tokens
  after \<open>i\<close> in \<open>left\<close> (at \<open>k'\<close>), the iteration takes the insertion branch: it pushes
  \<open>right[j..k)\<close> as added and \<open>left[i]\<close> as unchanged, sets \<open>i\<close> to \<open>i + 1\<close> and \<open>j\<close> to
  \<open>k + 1\<close>, and its outcome is not the one of the deletion branch.
\<close>

theorem tie_break_insertion_first:
  assumes "i < length left" and "j < length right" and "left ! i \<noteq> right ! j"
    and "j < k" and "k < j + 5" and "k < length right" and "right ! k = left ! i"
    and "\<forall>m. j < m \<and> m < k \<longrightarrow> right ! m \<noteq> left ! i"
    and "i < k'" and "k' < i + 5" and "k' < length left" and "left ! k' = right ! j"
  shows "step left right (i, j, result) =
           (i + 1, k + 1,
            result @ map (\<lambda>t. \<lparr>text' = t, type' = added\<rparr>) (take (k - j) (drop j right))
                   @ [\<lparr>text' = left ! i, type' = unchanged\<rparr>]) \<and>
         step left right (i, j, result) \<noteq>
           (k' + 1, j + 1,
            result @ map (\<lambda>t. \<lparr>text' = t, type' = removed\<rparr>) (take (k' - i) (drop i left))
                   @ [\<lparr>text' = right ! j, type' = unchanged\<rparr>])"
proof -
  have "lookahead right (left ! i) j (j + 1) = Some (k, left ! i)"
    using assms(4-8) by (simp add: lookahead_Some_iff Suc_le_eq)
  from step_insertion [OF assms(1-3) this, of result] assms(9)
  show ?thesis by simp
qed

theorem tie_break_insertion_first_witness:
  "(0::nat) < length [[0x61 :: 16 word], [0x62]] \<and>
   (0::nat) < length [[0x62 :: 16 word], [0x63], [0x61]] \<and>
   [[0x61 :: 16 word], [0x62]] ! 0 \<noteq> [[0x62], [0x63], [0x61]] ! 0 \<and>
   [[0x62 :: 16 word], [0x63], [0x61]] ! 1 \<noteq> [[0x61], [0x62]] ! 0 \<and>
   [[0x62 :: 16 word], [0x63], [0x61]] ! 2 = [[0x61], [0x62]] ! 0 \<and>
   [[0x61 :: 16 word], [0x62]] ! 1 = [[0x62], [0x63], [0x61]] ! 0 \<and>
   step [[0x61], [0x62]] [[0x62], [0x63], [0x61]] (0, 0, []) =
     (1, 3, [\<lparr>text' = [0x62], type' = added\<rparr>, \<lparr>text' = [0x63], type' = added\<rparr>,
             \<lparr>text' = [0x61], type' = unchanged\<rparr>])"
proof -
  have first: "\<forall>m. 0 < m \<and> m < 2 \<longrightarrow> [[0x62 :: 16 word], [0x63], [0x61]] ! m \<noteq> [[0x61], [0x62]] ! 0"
  proof (intro allI impI)
    fix m :: nat
    assume "0 < m \<and> m < 2"
    then have "m = 1" by simp
    then show "[[0x62 :: 16 word], [0x63], [0x61]] ! m \<noteq> [[0x61], [0x62]] ! 0" by simp
  qed
  show ?thesis
    using tie_break_insertion_first
      [of 0 "[[0x61], [0x62]]" 0 "[[0x62], [0x63], [0x61]]" 2 1 "[]", OF _ _ _ _ _ _ _ first]
    by (simp add: numeral_2_eq_2)
qed

section \<open>Properties of the tokenizer and of the compare handler\<close>

text \<open>
  Claim C6 (degenerate short-circuit). Both texts trim to the empty string exactly when
  each consists of whitespace only (the empty text included); then \<open>handleCompare\<close> sets
  the segment sequence to the empty one and hides the results. This is the branch that
  returns before the split and before \<open>computeDiff\<close>: what these two would compute on the
  same texts is never empty.
\<close>

theorem handleCompare_blank_inputs:
  "(trim (leftText s) = [] \<and> trim (rightText s) = [] \<longleftrightarrow>
      (\<forall>c \<in> set (leftText s). is_whitespace c) \<and> (\<forall>c \<in> set (rightText s). is_whitespace c)) \<and>
   (trim (leftText s) = [] \<and> trim (rightText s) = [] \<longrightarrow>
      handleCompare s = s\<lparr>diffResults := [], showResults := False\<rparr> \<and>
      computeDiff (split_ws (leftText s)) (split_ws (rightText s)) \<noteq> [])"
proof (intro conjI impI)
  show "trim (leftText s) = [] \<and> trim (rightText s) = [] \<longleftrightarrow>
      (\<forall>c \<in> set (leftText s). is_whitespace c) \<and> (\<forall>c \<in> set (rightText s). is_whitespace c)"
    by (simp only: trim_empty_iff)
next
  assume "trim (leftText s) = [] \<and> trim (rightText s) = []"
  then show "handleCompare s = s\<lparr>diffResults := [], showResults := False\<rparr>"
    by (simp add: handleCompare_def)
next
  have "length (split_ws (leftText s)) \<le> length (computeDiff (split_ws (leftText s)) (split_ws (rightText s)))"
    using aligned_computeDiff [of "split_ws (leftText s)" "split_ws (rightText s)"]
    by (simp add: aligned_def)
  moreover have "0 < length (split_ws (leftText s))"
    using split_ws_not_Nil [of "leftText s"] by simp
  ultimately show "computeDiff (split_ws (leftText s)) (split_ws (rightText s)) \<noteq> []"
    by auto
qed

theorem handleCompare_blank_inputs_witness:
  "trim [] = [] \<and> trim [0x20 :: 16 word, 0x0A] = [] \<and>
   handleCompare \<lparr>leftText = [], rightText = [0x20, 0x0A],
                   diffResults = [\<lparr>text' = [0x61], type' = added\<rparr>], showResults = True\<rparr>
     = \<lparr>leftText = [], rightText = [0x20, 0x0A], diffResults = [], showResults = False\<rparr>"
  using handleCompare_blank_inputs
    [of "\<lparr>leftText = [], rightText = [0x20, 0x0A],
          diffResults = [\<lparr>text' = [0x61], type' = added\<rparr>], showResults = True\<rparr>"]
  by (simp add: trim_def is_whitespace_def)

text \<open>
  Claim C7 (tokenizer round-trip). For every string \<open>s\<close>, the tokens of \<open>s\<close> concatenated
  in order are \<open>s\<close>: no code unit is dropped, moved or changed.
\<close>

theorem split_ws_round_trip: "concat (split_ws s) = s"
  by (rule concat_split_ws)

text \<open>
  Claim C8 (token shape), as stated: every token is a maximal run of whitespace or of
  non-whitespace, so no token is empty. It fails on a text that starts with whitespace:
  the split of a space followed by \<open>a\<close> has the empty string as its first element.
\<close>

theorem split_ws_empty_token_counterexample:
  "[] \<in> set (split_ws [0x20, 0x61])"
  by (simp add: split_ws.simps is_whitespace_def)

text \<open>
  Claim C8, amended. The tokens of \<open>s\<close> concatenate to \<open>s\<close> and are odd in number; the
  tokens at even positions (the pieces between the separators) contain no whitespace,
  the tokens at odd positions (the separators) are non-empty and all whitespace, and
  every token that is neither the first nor the last is non-empty. So every non-empty
  token is a maximal run of its class, neighbours are of different classes, and an
  empty token occurs only as the first or the last one.
\<close>

theorem split_ws_token_shape:
  "concat (split_ws s) = s \<and> odd (length (split_ws s)) \<and>
   (\<forall>n < length (split_ws s).
      (even n \<longrightarrow> (\<forall>c \<in> set (split_ws s ! n). \<not> is_whitespace c)) \<and>
      (odd n \<longrightarrow> split_ws s ! n \<noteq> [] \<and> (\<forall>c \<in> set (split_ws s ! n). is_whitespace c)) \<and>
      (0 < n \<and> n + 1 < length (split_ws s) \<longrightarrow> split_ws s ! n \<noteq> []))"
proof (intro conjI allI impI)
  show "concat (split_ws s) = s"
    by (rule concat_split_ws)
  show "odd (length (split_ws s))"
    by (rule split_ws_length_odd)
next
  fix n assume "n < length (split_ws s)" "even n"
  then show "\<forall>c \<in> set (split_ws s ! n). \<not> is_whitespace c"
    using split_ws_classes [of n s] by simp
next
  fix n assume "n < length (split_ws s)" "odd n"
  then show "split_ws s ! n \<noteq> []" "\<forall>c \<in> set (split_ws s ! n). is_whitespace c"
    using split_ws_classes [of n s] by simp_all
next
  fix n assume "0 < n \<and> n + 1 < length (split_ws s)"
  then show "split_ws s ! n \<noteq> []"
    using split_ws_inner_nonempty [of n s] by simp
qed

theorem split_ws_token_shape_witness:
  "split_ws [0x20, 0x61, 0x09, 0x0A, 0x62] = [[], [0x20], [0x61], [0x09, 0x0A], [0x62]] \<and>
   concat (split_ws [0x20, 0x61, 0x09, 0x0A, 0x62]) = [0x20, 0x61, 0x09, 0x0A, 0x62] \<and>
   odd (length (split_ws [0x20, 0x61, 0x09, 0x0A, 0x62])) \<and>
   (3::nat) < length (split_ws [0x20, 0x61, 0x09, 0x0A, 0x62]) \<and> odd (3::nat) \<and>
   split_ws [0x20, 0x61, 0x09, 0x0A, 0x62] ! 3 = [0x09, 0x0A] \<and>
   is_whitespace 0x09 \<and> is_whitespace 0x0A \<and>
   (2::nat) < length (split_ws [0x20, 0x61, 0x09, 0x0A, 0x62]) \<and> even (2::nat) \<and>
   (0::nat) < 2 \<and> (2::nat) + 1 < length (split_ws [0x20, 0x61, 0x09, 0x0A, 0x62]) \<and>
   split_ws [0x20, 0x61, 0x09, 0x0A, 0x62] ! 2 = [0x61] \<and> \<not> is_whitespace 0x61"
  using split_ws_token_shape [of "[0x20, 0x61, 0x09, 0x0A, 0x62]"]
  by (simp add: split_ws.simps is_whitespace_def)

text \<open>
  Claim C9 (the empty string on the general path). The split of the empty string is one
  empty token. When one text is empty and the other does not trim to the empty string,
  \<open>handleCompare\<close> aligns that single empty token against the tokens of the other text
  as it would any token list; in particular, for an empty original and a modified text
  that is one non-empty word without whitespace, the segments are the empty string as
  removed followed by the word as added.
\<close>

theorem handleCompare_empty_against_word:
  "split_ws [] = [[]] \<and>
   (leftText s = [] \<and> trim (rightText s) \<noteq> [] \<longrightarrow>
      diffResults (handleCompare s) = computeDiff [[]] (split_ws (rightText s))) \<and>
   (rightText s = [] \<and> trim (leftText s) \<noteq> [] \<longrightarrow>
      diffResults (handleCompare s) = computeDiff (split_ws (leftText s)) [[]]) \<and>
   (leftText s = [] \<and> rightText s \<noteq> [] \<and> (\<forall>c \<in> set (rightText s). \<not> is_whitespace c) \<longrightarrow>
      diffResults (handleCompare s) =
        [\<lparr>text' = [], type' = removed\<rparr>, \<lparr>text' = rightText s, type' = added\<rparr>])"
proof (intro conjI impI)
  show e: "split_ws [] = [[]]"
    by (simp add: split_ws_no_separator)
  {
    assume "leftText s = [] \<and> trim (rightText s) \<noteq> []"
    then show "diffResults (handleCompare s) = computeDiff [[]] (split_ws (rightText s))"
      by (simp add: handleCompare_def e)
  }
  {
    assume "rightText s = [] \<and> trim (leftText s) \<noteq> []"
    then show "diffResults (handleCompare s) = computeDiff (split_ws (leftText s)) [[]]"
      by (simp add: handleCompare_def e)
  }
  {
    assume a: "leftText s = [] \<and> rightText s \<noteq> [] \<and> (\<forall>c \<in> set (rightText s). \<not> is_whitespace c)"
    then have "trim (rightText s) \<noteq> []"
      unfolding trim_empty_iff by (cases "rightText s") auto
    moreover have "split_ws (rightText s) = [rightText s]"
      using a by (intro split_ws_no_whitespace) simp
    ultimately show "diffResults (handleCompare s) =
        [\<lparr>text' = [], type' = removed\<rparr>, \<lparr>text' = rightText s, type' = added\<rparr>]"
      using a by (simp add: handleCompare_def e computeDiff_empty_against_word)
  }
qed

theorem handleCompare_empty_against_word_witness:
  "trim [0x68 :: 16 word, 0x69] \<noteq> [] \<and> \<not> is_whitespace 0x68 \<and> \<not> is_whitespace 0x69 \<and>
   diffResults (handleCompare \<lparr>leftText = [], rightText = [0x68, 0x69],
                                diffResults = [], showResults = False\<rparr>)
     = [\<lparr>text' = [], type' = removed\<rparr>, \<lparr>text' = [0x68, 0x69], type' = added\<rparr>] \<and>
   diffResults (handleCompare \<lparr>leftText = [0x68, 0x69], rightText = [],
                                diffResults = [], showResults = False\<rparr>)
     = computeDiff (split_ws [0x68, 0x69]) [[]]"
  using handleCompare_empty_against_word
      [of "\<lparr>leftText = [], rightText = [0x68, 0x69], diffResults = [], showResults = False\<rparr>"]
    handleCompare_empty_against_word
      [of "\<lparr>leftText = [0x68, 0x69], rightText = [], diffResults = [], showResults = False\<rparr>"]
  by (auto simp: trim_def is_whitespace_def)

end
